theory Spec2Isabelle
  imports Main
begin

section \<open>The game state of script.js\<close>

text \<open>
  The script keeps one global object \<open>gameState\<close>. Cells, the current player and the
  winner are JavaScript strings: a cell is \<open>''''\<close> (empty), \<open>''X''\<close> or \<open>''O''\<close>; the winner
  and the mode are \<open>null\<close> (\<open>None\<close>) or a string. The record below has the six fields
  of the object in the order of the source. The last field, \<open>timers\<close>, is not a field of
  the object: it counts the callbacks that \<open>makeComputerMove\<close> handed to \<open>setTimeout\<close>
  and that have not run yet.

  Everything the functions do to the DOM (text, classes, focus, confetti) is left out:
  none of it is read back by the game logic.
\<close>

record gameState =
  board :: "string list"
  currentPlayer :: string
  gameActive :: bool
  winner :: "string option"
  mode :: "string option"
  isComputerTurn :: bool
  timers :: nat

definition initialGameState :: gameState where
  "initialGameState =
     \<lparr> board = ['''', '''', '''', '''', '''', '''', '''', '''', ''''],
       currentPlayer = ''X'',
       gameActive = True,
       winner = None,
       mode = None,
       isComputerTurn = False,
       timers = 0 \<rparr>"

type_synonym line = "int \<times> int \<times> int"

definition WINNING_COMBINATIONS :: "line list" where
  "WINNING_COMBINATIONS =
     [(0, 1, 2), (3, 4, 5), (6, 7, 8),
      (0, 3, 6), (1, 4, 7), (2, 5, 8),
      (0, 4, 8), (2, 4, 6)]"

text \<open>
  Reading \<open>board[i]\<close>: an index inside the array gives the cell, any other integer gives
  \<open>undefined\<close>, which is \<open>None\<close> here. \<open>===\<close> between two such values is equality of the
  options, and only a non-empty string is truthy.
\<close>

definition cellAt :: "string list \<Rightarrow> int \<Rightarrow> string option" where
  "cellAt b i = (if 0 \<le> i \<and> i < int (length b) then Some (b ! nat i) else None)"

definition truthy :: "string option \<Rightarrow> bool" where
  "truthy v = (case v of None \<Rightarrow> False | Some s \<Rightarrow> s \<noteq> '''')"

section \<open>Win and draw detection\<close>

definition lineMatches :: "string list \<Rightarrow> line \<Rightarrow> bool" where
  "lineMatches bd combination =
     (case combination of (a, b, c) \<Rightarrow>
        truthy (cellAt bd a) \<and> cellAt bd a = cellAt bd b \<and> cellAt bd a = cellAt bd c)"

text \<open>The \<open>for ... of\<close> loop of \<open>checkWin\<close>, returning from inside at the first match.\<close>

fun checkWinLoop :: "string list \<Rightarrow> line list \<Rightarrow> line option" where
  "checkWinLoop bd [] = None"
| "checkWinLoop bd (combination # rest) =
     (if lineMatches bd combination then Some combination else checkWinLoop bd rest)"

definition checkWin :: "string list \<Rightarrow> line option" where
  "checkWin b = checkWinLoop b WINNING_COMBINATIONS"

definition checkDraw :: "string list \<Rightarrow> bool" where
  "checkDraw b = list_all (\<lambda>cell. cell \<noteq> '''') b"

section \<open>Moves\<close>

definition handleWin :: "gameState \<Rightarrow> gameState" where
  "handleWin s = s\<lparr>gameActive := False, winner := Some (currentPlayer s)\<rparr>"

definition handleDraw :: "gameState \<Rightarrow> gameState" where
  "handleDraw s = s\<lparr>gameActive := False\<rparr>"

definition switchPlayer :: "gameState \<Rightarrow> gameState" where
  "switchPlayer s =
     s\<lparr>currentPlayer := (if currentPlayer s = ''X'' then ''O'' else ''X'')\<rparr>"

text \<open>
  The synchronous part of \<open>makeComputerMove\<close>: it sets the flag and schedules the
  callback, which runs later (\<open>computerMoveCallback\<close> below).
\<close>

definition makeComputerMove :: "gameState \<Rightarrow> gameState" where
  "makeComputerMove s = s\<lparr>isComputerTurn := True, timers := Suc (timers s)\<rparr>"

text \<open>
  \<open>makeMove\<close> returns no value. The first component of the model's result records which
  branch ran: \<open>InvalidMove\<close> is the early \<open>return\<close> of the validation, \<open>Win l\<close> the call
  \<open>handleWin(l)\<close>, \<open>Draw\<close> the call \<open>handleDraw()\<close>, \<open>Continue\<close> the branch that calls
  \<open>switchPlayer()\<close>. The second component is \<open>gameState\<close> after the call.

  The write \<open>board[index] = currentPlayer\<close> is only reached when \<open>board[index] === ''''\<close>,
  so the index is inside the array and the write is \<open>list_update\<close>.
\<close>

datatype MoveResult = InvalidMove | Win line | Draw | Continue

definition makeMove :: "gameState \<Rightarrow> int \<Rightarrow> MoveResult \<times> gameState" where
  "makeMove s index =
     (if \<not> gameActive s \<or> cellAt (board s) index \<noteq> Some '''' then (InvalidMove, s)
      else
        let s1 = s\<lparr>board := (board s)[nat index := currentPlayer s]\<rparr> in
        case checkWin (board s1) of
          Some winResult \<Rightarrow> (Win winResult, handleWin s1)
        | None \<Rightarrow>
            if checkDraw (board s1) then (Draw, handleDraw s1)
            else
              let s2 = switchPlayer s1 in
              if mode s2 = Some ''vs-computer'' \<and> currentPlayer s2 = ''O'' \<and> gameActive s2
              then (Continue, makeComputerMove s2)
              else (Continue, s2))"

definition resetGameState :: "gameState \<Rightarrow> gameState" where
  "resetGameState s =
     s\<lparr>board := ['''', '''', '''', '''', '''', '''', '''', '''', ''''],
       currentPlayer := ''X'',
       gameActive := True,
       winner := None,
       isComputerTurn := False\<rparr>"

section \<open>The computer's move\<close>

text \<open>
  \<open>emptyIndices\<close> of \<open>findBestMove\<close>: \<open>map\<close> with the index, \<open>-1\<close> for a taken cell, then
  \<open>filter\<close>.
\<close>

definition emptyIndices :: "string list \<Rightarrow> int list" where
  "emptyIndices b =
     filter (\<lambda>idx. idx \<noteq> - 1)
       (map (\<lambda>(idx, val). if val = '''' then int idx else - 1) (enumerate 0 b))"

text \<open>
  The first and the second trial loop of \<open>findBestMove\<close> differ in the mark only. Each
  round writes the mark into the board, calls \<open>checkWin\<close>, and writes \<open>''''\<close> back, before
  the \<open>return\<close> too. The function returns the index found (or \<open>None\<close> when the loop runs
  out) and the board as the loop leaves it. The indices come from \<open>emptyIndices\<close>, so
  every write is inside the array (\<open>set_emptyIndices\<close> below).
\<close>

fun tryMark :: "string \<Rightarrow> string list \<Rightarrow> int list \<Rightarrow> int option \<times> string list" where
  "tryMark m b [] = (None, b)"
| "tryMark m b (index # rest) =
     (let b1 = b[nat index := m] in
      if checkWin b1 \<noteq> None then (Some index, b1[nat index := ''''])
      else tryMark m (b1[nat index := '''']) rest)"

text \<open>
  \<open>Math.floor(Math.random() * n)\<close> is some index below \<open>n\<close>. The model takes the draw
  as a parameter \<open>r\<close> and uses \<open>r mod n\<close>, so every index below \<open>n\<close> is the result for
  some \<open>r\<close>, and no other value is.
\<close>

definition pick :: "nat \<Rightarrow> int list \<Rightarrow> int" where
  "pick r xs = xs ! (r mod length xs)"

definition findBestMove :: "nat \<Rightarrow> string list \<Rightarrow> int \<times> string list" where
  "findBestMove r b =
     (let empties = emptyIndices b in
      if length empties = 0 then (- 1, b)
      else
        case tryMark ''O'' b empties of
          (Some index, b1) \<Rightarrow> (index, b1)
        | (None, b1) \<Rightarrow>
            (case tryMark ''X'' b1 empties of
               (Some index, b2) \<Rightarrow> (index, b2)
             | (None, b2) \<Rightarrow>
                 if 4 \<in> set empties then (4, b2)
                 else
                   let corners = filter (\<lambda>c. c \<in> set empties) [0, 2, 6, 8] in
                   if length corners > 0 then (pick r corners, b2)
                   else
                     let edges = filter (\<lambda>e. e \<in> set empties) [1, 3, 5, 7] in
                     if length edges > 0 then (pick r edges, b2)
                     else (pick r empties, b2)))"

text \<open>
  The callback that \<open>makeComputerMove\<close> schedules. It places \<open>''O''\<close> itself (it does not
  go through \<open>makeMove\<close>) and clears \<open>isComputerTurn\<close> on every path. An index other than
  \<open>-1\<close> is the index of an empty cell (\<open>findBestMove_index\<close> below), so the write is
  inside the array.
\<close>

definition computerMoveCallback :: "nat \<Rightarrow> gameState \<Rightarrow> gameState" where
  "computerMoveCallback r s =
     (if \<not> gameActive s then s\<lparr>isComputerTurn := False\<rparr>
      else
        case findBestMove r (board s) of (moveIndex, b) \<Rightarrow>
          let s1 = s\<lparr>board := b\<rparr> in
          if moveIndex \<noteq> - 1 then
            let s2 = s1\<lparr>board := (board s1)[nat moveIndex := ''O'']\<rparr>;
                s3 = (case checkWin (board s2) of
                        Some winResult \<Rightarrow> handleWin s2
                      | None \<Rightarrow> if checkDraw (board s2) then handleDraw s2 else switchPlayer s2)
            in s3\<lparr>isComputerTurn := False\<rparr>
          else s1\<lparr>isComputerTurn := False\<rparr>)"

section \<open>Runs\<close>

text \<open>
  What can happen to \<open>gameState\<close> between two events: a call of \<open>makeMove\<close> (from a click
  or a key), a scheduled callback running, a restart (\<open>restartGame\<close>, \<open>showModeSelection\<close>:
  both are \<open>resetGameState\<close> as far as the state goes), or the choice of a mode
  (\<open>selectMode\<close>: the mode is stored, then the state is reset).
\<close>

datatype event = Move int | Timeout nat | Restart | SelectMode string

definition selectMode :: "string \<Rightarrow> gameState \<Rightarrow> gameState" where
  "selectMode m s = resetGameState (s\<lparr>mode := Some m\<rparr>)"

fun step :: "gameState \<Rightarrow> event \<Rightarrow> gameState" where
  "step s (Move index) = snd (makeMove s index)"
| "step s (Timeout r) =
     (if timers s = 0 then s else computerMoveCallback r (s\<lparr>timers := timers s - 1\<rparr>))"
| "step s Restart = resetGameState s"
| "step s (SelectMode m) = selectMode m s"

inductive reachable :: "gameState \<Rightarrow> bool" where
  reachable_init: "reachable initialGameState"
| reachable_step: "reachable s \<Longrightarrow> reachable (step s e)"

text \<open>A sequence of \<open>makeMove\<close> calls: the results in order, and the final state.\<close>

fun makeMoves :: "gameState \<Rightarrow> int list \<Rightarrow> MoveResult list \<times> gameState" where
  "makeMoves s [] = ([], s)"
| "makeMoves s (index # rest) =
     (case makeMove s index of (res, s') \<Rightarrow>
        case makeMoves s' rest of (ress, s'') \<Rightarrow> (res # ress, s''))"

section \<open>Notions used to state the properties\<close>

text \<open>
  The three cells of a line hold the same mark: the first is not empty and the other two
  equal it. This is stated on a board of nine cells, where every index of a line is a cell.
\<close>

definition threeInLine :: "string list \<Rightarrow> line \<Rightarrow> bool" where
  "threeInLine bd l = (case l of (a, b, c) \<Rightarrow>
     bd ! nat a \<noteq> '''' \<and> bd ! nat b = bd ! nat a \<and> bd ! nat c = bd ! nat a)"

text \<open>
  What holds of \<open>gameState\<close> between two events: the board has nine cells; while the game
  is active there is no winner and no complete line on the board; once it is over, the
  winner is set exactly when the board holds a complete line.
\<close>

definition sessionInv :: "gameState \<Rightarrow> bool" where
  "sessionInv s \<longleftrightarrow>
     length (board s) = 9 \<and>
     (if gameActive s then winner s = None \<and> checkWin (board s) = None
      else (winner s = None) = (checkWin (board s) = None))"

text \<open>The events that reset the state.\<close>

fun isReset :: "event \<Rightarrow> bool" where
  "isReset Restart = True"
| "isReset (SelectMode m) = True"
| "isReset (Move index) = False"
| "isReset (Timeout r) = False"

text \<open>
  Cell \<open>i\<close> is empty and the board with mark \<open>m\<close> written there has a line that
  \<open>checkWin\<close> finds.
\<close>

definition winsWith :: "string \<Rightarrow> string list \<Rightarrow> nat \<Rightarrow> bool" where
  "winsWith m bd i \<longleftrightarrow> i < length bd \<and> bd ! i = '''' \<and> checkWin (bd[i := m]) \<noteq> None"

text \<open>The indices of \<open>cs\<close>, in the order of \<open>cs\<close>, whose cell is empty.\<close>

definition emptyAmong :: "string list \<Rightarrow> int list \<Rightarrow> int list" where
  "emptyAmong bd cs = filter (\<lambda>c. cellAt bd c = Some '''') cs"

section \<open>Win detection\<close>

lemma checkWinLoop_find: "checkWinLoop bd ls = find (lineMatches bd) ls"
  by (induction ls) auto

lemma lineMatches_threeInLine:
  "length bd = 9 \<Longrightarrow> l \<in> set WINNING_COMBINATIONS \<Longrightarrow> lineMatches bd l = threeInLine bd l"
  by (auto simp: WINNING_COMBINATIONS_def lineMatches_def threeInLine_def cellAt_def truthy_def)

text \<open>
  Claim C2. On every board of nine cells, \<open>checkWin\<close> returns a line exactly when one of
  the eight lines (rows \<open>0-1-2\<close>, \<open>3-4-5\<close>, \<open>6-7-8\<close>, columns \<open>0-3-6\<close>, \<open>1-4-7\<close>, \<open>2-5-8\<close>,
  diagonals \<open>0-4-8\<close>, \<open>2-4-6\<close>) holds three equal non-empty cells, and the line it returns is
  the first such line in that order; otherwise it returns \<open>null\<close>.
\<close>

theorem checkWin_first_matching_line:
  assumes "length bd = 9"
  shows "WINNING_COMBINATIONS =
           [(0, 1, 2), (3, 4, 5), (6, 7, 8), (0, 3, 6), (1, 4, 7), (2, 5, 8), (0, 4, 8), (2, 4, 6)]
    \<and> (checkWin bd \<noteq> None \<longleftrightarrow> (\<exists>l \<in> set WINNING_COMBINATIONS. threeInLine bd l))
    \<and> (checkWin bd = Some l \<longleftrightarrow>
           (\<exists>i < length WINNING_COMBINATIONS. l = WINNING_COMBINATIONS ! i \<and> threeInLine bd l \<and>
              (\<forall>j < i. \<not> threeInLine bd (WINNING_COMBINATIONS ! j))))"
proof -
  have lines: "WINNING_COMBINATIONS =
           [(0, 1, 2), (3, 4, 5), (6, 7, 8), (0, 3, 6), (1, 4, 7), (2, 5, 8), (0, 4, 8), (2, 4, 6)]"
    by (simp add: WINNING_COMBINATIONS_def)
  have eq: "\<And>k. k < length WINNING_COMBINATIONS \<Longrightarrow>
      lineMatches bd (WINNING_COMBINATIONS ! k) = threeInLine bd (WINNING_COMBINATIONS ! k)"
    using assms by (simp add: lineMatches_threeInLine)
  have some: "checkWin bd \<noteq> None \<longleftrightarrow> (\<exists>l \<in> set WINNING_COMBINATIONS. threeInLine bd l)"
    using assms by (auto simp: checkWin_def checkWinLoop_find find_None_iff lineMatches_threeInLine)
  have first: "checkWin bd = Some l \<longleftrightarrow>
           (\<exists>i < length WINNING_COMBINATIONS. l = WINNING_COMBINATIONS ! i \<and> threeInLine bd l \<and>
              (\<forall>j < i. \<not> threeInLine bd (WINNING_COMBINATIONS ! j)))"
    unfolding checkWin_def checkWinLoop_find find_Some_iff
    using eq by (metis (no_types, lifting) order.strict_trans)
  from lines some first show ?thesis by blast
qed

text \<open>
  A board where the middle row and the middle column are both complete: the row comes
  first in the order and is the line returned.
\<close>

theorem checkWin_first_matching_line_witness:
  "length [''O'', ''X'', ''O'', ''X'', ''X'', ''X'', ''O'', ''X'', ''O''] = 9
   \<and> threeInLine [''O'', ''X'', ''O'', ''X'', ''X'', ''X'', ''O'', ''X'', ''O''] (1, 4, 7)
   \<and> checkWin [''O'', ''X'', ''O'', ''X'', ''X'', ''X'', ''O'', ''X'', ''O''] = Some (3, 4, 5)"
  using checkWin_first_matching_line
          [of "[''O'', ''X'', ''O'', ''X'', ''X'', ''X'', ''O'', ''X'', ''O'']" "(3, 4, 5)"]
  by (simp add: threeInLine_def checkWin_def WINNING_COMBINATIONS_def lineMatches_def
        cellAt_def truthy_def)

section \<open>Rejected moves\<close>

text \<open>
  Claim C3. On a board of nine cells, \<open>makeMove\<close> with an index below 0 or above 8, or
  with the game over, or on a cell that is not empty, takes the early return and leaves
  the whole state as it was.
\<close>

theorem makeMove_rejects:
  assumes "length (board s) = 9"
    and "index < 0 \<or> 8 < index \<or> \<not> gameActive s \<or> board s ! nat index \<noteq> ''''"
  shows "makeMove s index = (InvalidMove, s)"
  using assms by (auto simp: makeMove_def cellAt_def)

theorem makeMove_rejects_witness:
  "makeMove initialGameState 9 = (InvalidMove, initialGameState)
   \<and> makeMove initialGameState (- 1) = (InvalidMove, initialGameState)
   \<and> makeMove (initialGameState\<lparr>gameActive := False\<rparr>) 0
       = (InvalidMove, initialGameState\<lparr>gameActive := False\<rparr>)
   \<and> makeMove (initialGameState\<lparr>board := (board initialGameState)[4 := ''X'']\<rparr>) 4
       = (InvalidMove, initialGameState\<lparr>board := (board initialGameState)[4 := ''X'']\<rparr>)"
  using makeMove_rejects [of initialGameState 9]
        makeMove_rejects [of initialGameState "- 1"]
        makeMove_rejects [of "initialGameState\<lparr>gameActive := False\<rparr>" 0]
        makeMove_rejects [of "initialGameState\<lparr>board := (board initialGameState)[4 := ''X'']\<rparr>" 4]
  by (simp add: initialGameState_def)

section \<open>Reset\<close>

text \<open>
  Claim C8. Whatever the state, \<open>resetGameState\<close> gives the initial one: nine empty
  cells, \<open>X\<close> to move, the game active, no winner. The mode is kept, and callbacks
  already scheduled stay scheduled.
\<close>

theorem resetGameState_initial:
  "resetGameState s = initialGameState\<lparr>mode := mode s, timers := timers s\<rparr>
   \<and> board (resetGameState s) = replicate 9 ''''
   \<and> currentPlayer (resetGameState s) = ''X''
   \<and> gameActive (resetGameState s)
   \<and> winner (resetGameState s) = None"
  by (simp add: resetGameState_def initialGameState_def eval_nat_numeral)

section \<open>The empty cells\<close>

lemma emptyIndices_gen:
  "filter (\<lambda>idx. idx \<noteq> - 1)
     (map (\<lambda>(idx, val). if val = '''' then int idx else - 1) (enumerate n xs))
   = map int (filter (\<lambda>i. xs ! (i - n) = '''') [n..<n + length xs])"
proof (induction xs arbitrary: n)
  case Nil
  then show ?case by simp
next
  case (Cons x xs)
  have upt: "[n..<n + length (x # xs)] = n # [Suc n..<Suc n + length xs]"
    by (simp add: upt_rec)
  have flt: "filter (\<lambda>i. (x # xs) ! (i - n) = '''') [Suc n..<Suc n + length xs]
           = filter (\<lambda>i. xs ! (i - Suc n) = '''') [Suc n..<Suc n + length xs]"
  proof (rule filter_cong)
    fix i assume "i \<in> set [Suc n..<Suc n + length xs]"
    then have "i - n = Suc (i - Suc n)" by auto
    then show "((x # xs) ! (i - n) = '''') = (xs ! (i - Suc n) = '''')" by simp
  qed simp
  have l: "filter (\<lambda>idx. idx \<noteq> - 1)
             (map (\<lambda>(idx, val). if val = [] then int idx else - 1) (enumerate n (x # xs)))
        = (if x = [] then [int n] else []) @
          filter (\<lambda>idx. idx \<noteq> - 1)
             (map (\<lambda>(idx, val). if val = [] then int idx else - 1) (enumerate (Suc n) xs))"
    by simp
  have r: "map int (filter (\<lambda>i. (x # xs) ! (i - n) = []) (n # [Suc n..<Suc n + length xs]))
        = (if x = [] then [int n] else []) @
          map int (filter (\<lambda>i. (x # xs) ! (i - n) = []) [Suc n..<Suc n + length xs])"
    by simp
  show ?case
    unfolding upt l r flt Cons[of "Suc n"] ..
qed

lemma emptyIndices_eq:
  "emptyIndices bd = map int (filter (\<lambda>i. bd ! i = '''') [0..<length bd])"
  using emptyIndices_gen[of 0 bd] by (simp add: emptyIndices_def)

lemma set_emptyIndices:
  "set (emptyIndices bd) = {int i |i. i < length bd \<and> bd ! i = ''''}"
  by (auto simp: emptyIndices_eq)

lemma emptyIndices_Nil: "emptyIndices bd = [] \<longleftrightarrow> (\<forall>cell \<in> set bd. cell \<noteq> '''')"
  by (auto simp: emptyIndices_eq filter_empty_conv in_set_conv_nth)

section \<open>The computer's move on a full board\<close>

text \<open>
  Claim C9. On a board with no empty cell, \<open>findBestMove\<close> returns \<open>-1\<close>, the value its
  caller reads as "no move", and the board is as it was.
\<close>

theorem findBestMove_full_board:
  assumes "\<forall>cell \<in> set bd. cell \<noteq> ''''"
  shows "findBestMove r bd = (- 1, bd)"
  using assms by (simp add: findBestMove_def emptyIndices_Nil[symmetric])

theorem findBestMove_full_board_witness:
  "'''' \<notin> set [''X'', ''O'', ''X'', ''X'', ''O'', ''O'', ''O'', ''X'', ''X'']
   \<and> findBestMove 3 [''X'', ''O'', ''X'', ''X'', ''O'', ''O'', ''O'', ''X'', ''X'']
       = (- 1, [''X'', ''O'', ''X'', ''X'', ''O'', ''O'', ''O'', ''X'', ''X''])"
  using findBestMove_full_board
          [of "[''X'', ''O'', ''X'', ''X'', ''O'', ''O'', ''O'', ''X'', ''X'']" 3]
  by simp

section \<open>Accepted moves\<close>

lemma checkDraw_iff: "checkDraw bd \<longleftrightarrow> '''' \<notin> set bd"
  by (auto simp: checkDraw_def list_all_iff)

text \<open>
  Claim C1. With the game active and cell \<open>index\<close> of the nine empty, \<open>makeMove\<close> writes
  the current player's mark into that cell. If \<open>checkWin\<close> then finds a line, the game
  is over, the winner is the current player and the branch taken is \<open>handleWin\<close> with
  that line, also when the board is now full. Otherwise, if no cell is empty, the game is
  over and the branch is \<open>handleDraw\<close>, the winner untouched. Otherwise the current
  player changes from \<open>X\<close> to \<open>O\<close> or from \<open>O\<close> to \<open>X\<close> and the game goes on.
\<close>

theorem makeMove_accepts:
  assumes "gameActive s" and "length (board s) = 9"
    and "0 \<le> index" and "index \<le> 8" and "board s ! nat index = ''''"
  shows "let bd' = (board s)[nat index := currentPlayer s]; (res, s') = makeMove s index in
         board s' = bd' \<and> mode s' = mode s \<and>
         (case checkWin bd' of
            Some l \<Rightarrow>
              res = Win l \<and> \<not> gameActive s' \<and> winner s' = Some (currentPlayer s) \<and>
              currentPlayer s' = currentPlayer s
          | None \<Rightarrow>
              if '''' \<notin> set bd'
              then res = Draw \<and> \<not> gameActive s' \<and> winner s' = winner s \<and>
                   currentPlayer s' = currentPlayer s
              else res = Continue \<and> gameActive s' \<and> winner s' = winner s \<and>
                   currentPlayer s' = (if currentPlayer s = ''X'' then ''O'' else ''X''))"
  using assms
  by (simp add: makeMove_def cellAt_def Let_def handleWin_def handleDraw_def switchPlayer_def
        makeComputerMove_def checkDraw_iff split: option.split)

text \<open>
  Three moves into cell 8: one that fills the board and completes the diagonal \<open>0-4-8\<close>
  (a win, not a draw), one that fills the board with no line (a draw), and the first
  move of a game.
\<close>

theorem makeMove_accepts_witness:
  "makeMove (initialGameState\<lparr>board := [''X'', ''O'', ''X'', ''O'', ''X'', ''O'', ''O'', ''X'', '''']\<rparr>) 8
     = (Win (0, 4, 8),
        initialGameState\<lparr>board := [''X'', ''O'', ''X'', ''O'', ''X'', ''O'', ''O'', ''X'', ''X''],
                          gameActive := False, winner := Some ''X''\<rparr>)
   \<and> '''' \<notin> set [''X'', ''O'', ''X'', ''O'', ''X'', ''O'', ''O'', ''X'', ''X'']
   \<and> fst (makeMove (initialGameState\<lparr>board := [''X'', ''O'', ''X'', ''X'', ''O'', ''O'', ''O'', ''X'', '''']\<rparr>) 8)
       = Draw
   \<and> fst (makeMove initialGameState 4) = Continue
   \<and> currentPlayer (snd (makeMove initialGameState 4)) = ''O''"
  using makeMove_accepts
          [of "initialGameState\<lparr>board := [''X'', ''O'', ''X'', ''O'', ''X'', ''O'', ''O'', ''X'', '''']\<rparr>" 8]
        makeMove_accepts
          [of "initialGameState\<lparr>board := [''X'', ''O'', ''X'', ''X'', ''O'', ''O'', ''O'', ''X'', '''']\<rparr>" 8]
        makeMove_accepts [of initialGameState 4]
  by (simp add: initialGameState_def makeMove_def cellAt_def checkWin_def WINNING_COMBINATIONS_def
        lineMatches_def truthy_def handleWin_def handleDraw_def switchPlayer_def checkDraw_def)

section \<open>The trial placements of the computer's move\<close>


lemma tryMark_board:
  "set idxs \<subseteq> set (emptyIndices bd) \<Longrightarrow> snd (tryMark m bd idxs) = bd"
proof (induction idxs)
  case Nil
  then show ?case by simp
next
  case (Cons i idxs)
  from Cons.prems have "i \<in> set (emptyIndices bd)" by simp
  then have "nat i < length bd" and "bd ! nat i = ''''"
    by (auto simp: set_emptyIndices)
  then have undo: "bd[nat i := ''''] = bd"
    by (metis list_update_id)
  from Cons show ?case by (simp add: Let_def undo)
qed

lemma tryMark_find:
  "set idxs \<subseteq> set (emptyIndices bd) \<Longrightarrow>
     fst (tryMark m bd idxs) = find (\<lambda>i. checkWin (bd[nat i := m]) \<noteq> None) idxs"
proof (induction idxs)
  case Nil
  then show ?case by simp
next
  case (Cons i idxs)
  from Cons.prems have "i \<in> set (emptyIndices bd)" by simp
  then have "nat i < length bd" and "bd ! nat i = ''''"
    by (auto simp: set_emptyIndices)
  then have undo: "bd[nat i := ''''] = bd"
    by (metis list_update_id)
  from Cons show ?case by (simp add: Let_def undo)
qed

lemma tryMark_index: "fst (tryMark m bd idxs) = Some i \<Longrightarrow> i \<in> set idxs"
  by (induction idxs arbitrary: bd) (auto simp: Let_def split: if_splits)

lemma pick_in_set: "xs \<noteq> [] \<Longrightarrow> pick r xs \<in> set xs"
  by (simp add: pick_def)

lemma findBestMove_board: "snd (findBestMove r bd) = bd"
proof -
  have o: "snd (tryMark ''O'' bd (emptyIndices bd)) = bd" by (simp add: tryMark_board)
  have x: "snd (tryMark ''X'' bd (emptyIndices bd)) = bd" by (simp add: tryMark_board)
  obtain io bo where eo: "tryMark ''O'' bd (emptyIndices bd) = (io, bo)" by (cases "tryMark ''O'' bd (emptyIndices bd)")
  obtain ix bx where ex: "tryMark ''X'' bd (emptyIndices bd) = (ix, bx)" by (cases "tryMark ''X'' bd (emptyIndices bd)")
  from o eo have bo: "bo = bd" by simp
  from x ex have bx: "bx = bd" by simp
  show ?thesis
    by (simp add: findBestMove_def Let_def eo bo ex bx split: option.split)
qed

lemma findBestMove_index:
  "fst (findBestMove r bd) \<noteq> - 1 \<Longrightarrow> fst (findBestMove r bd) \<in> set (emptyIndices bd)"
proof -
  assume ne: "fst (findBestMove r bd) \<noteq> - 1"
  obtain io bo where eo: "tryMark ''O'' bd (emptyIndices bd) = (io, bo)" by (cases "tryMark ''O'' bd (emptyIndices bd)")
  from tryMark_board[of "emptyIndices bd" bd "''O''"] eo have bo: "bo = bd" by simp
  obtain ix bx where ex: "tryMark ''X'' bd (emptyIndices bd) = (ix, bx)" by (cases "tryMark ''X'' bd (emptyIndices bd)")
  have io: "\<And>i. io = Some i \<Longrightarrow> i \<in> set (emptyIndices bd)"
    using tryMark_index[of "''O''" bd "emptyIndices bd"] eo by simp
  have ix: "\<And>i. ix = Some i \<Longrightarrow> i \<in> set (emptyIndices bd)"
    using tryMark_index[of "''X''" bd "emptyIndices bd"] ex by simp
  let ?corners = "filter (\<lambda>c. c \<in> set (emptyIndices bd)) [0, 2, 6, 8]"
  let ?edges = "filter (\<lambda>c. c \<in> set (emptyIndices bd)) [1, 3, 5, 7]"
  have c: "?corners \<noteq> [] \<Longrightarrow> pick r ?corners \<in> set (emptyIndices bd)"
    using pick_in_set[of ?corners r] by (metis (no_types, lifting) mem_Collect_eq set_filter)
  have e: "?edges \<noteq> [] \<Longrightarrow> pick r ?edges \<in> set (emptyIndices bd)"
    using pick_in_set[of ?edges r] by (metis (no_types, lifting) mem_Collect_eq set_filter)
  have a: "emptyIndices bd \<noteq> [] \<Longrightarrow> pick r (emptyIndices bd) \<in> set (emptyIndices bd)"
    by (rule pick_in_set)
  show ?thesis
  proof (cases "emptyIndices bd = []")
    case True
    with ne show ?thesis by (simp add: findBestMove_def)
  next
    case False
    show ?thesis
    proof (cases io)
      case (Some i)
      with False eo bo io show ?thesis by (simp add: findBestMove_def Let_def)
    next
      case None
      note ioN = None
      show ?thesis
      proof (cases ix)
        case (Some i)
        with False eo bo ioN ex ix show ?thesis by (simp add: findBestMove_def Let_def)
      next
        case None
        have eq: "fst (findBestMove r bd) =
            (if 4 \<in> set (emptyIndices bd) then 4
             else if ?corners \<noteq> [] then pick r ?corners
             else if ?edges \<noteq> [] then pick r ?edges
             else pick r (emptyIndices bd))"
          using False eo bo ioN ex None by (simp add: findBestMove_def Let_def)
        show ?thesis unfolding eq using c e a False by presburger
      qed
    qed
  qed
qed

text \<open>
  Claim C5. After \<open>findBestMove\<close> the board is what it was before the call, and so it is
  after each trial loop, whether the loop returned early or ran out. An index returned
  other than \<open>-1\<close> is the index of an empty cell.
\<close>

theorem findBestMove_leaves_board:
  "snd (findBestMove r bd) = bd
   \<and> snd (tryMark m bd (emptyIndices bd)) = bd
   \<and> (fst (findBestMove r bd) \<noteq> - 1 \<longrightarrow> cellAt bd (fst (findBestMove r bd)) = Some '''')"
proof -
  have "cellAt bd (fst (findBestMove r bd)) = Some ''''" if "fst (findBestMove r bd) \<noteq> - 1"
    using findBestMove_index[OF that] by (auto simp: set_emptyIndices cellAt_def)
  then show ?thesis
    by (simp add: findBestMove_board tryMark_board)
qed

theorem findBestMove_leaves_board_witness:
  "fst (findBestMove 0 [''X'', ''X'', '''', '''', ''O'', '''', '''', '''', '''']) = 2
   \<and> cellAt [''X'', ''X'', '''', '''', ''O'', '''', '''', '''', ''''] 2 = Some ''''
   \<and> snd (findBestMove 0 [''X'', ''X'', '''', '''', ''O'', '''', '''', '''', ''''])
       = [''X'', ''X'', '''', '''', ''O'', '''', '''', '''', '''']"
  using findBestMove_leaves_board
          [of 0 "[''X'', ''X'', '''', '''', ''O'', '''', '''', '''', '''']" "''O''"]
  by (simp add: findBestMove_def emptyIndices_def checkWin_def WINNING_COMBINATIONS_def
        lineMatches_def cellAt_def truthy_def Let_def)

section \<open>The state between events\<close>

lemma checkWin_empty_board:
  "checkWin ['''', '''', '''', '''', '''', '''', '''', '''', ''''] = None"
  by (simp add: checkWin_def WINNING_COMBINATIONS_def lineMatches_def cellAt_def truthy_def)

lemma sessionInv_init: "sessionInv initialGameState"
  by (simp add: sessionInv_def initialGameState_def checkWin_empty_board)

lemma sessionInv_reset: "sessionInv (resetGameState s)"
  by (simp add: sessionInv_def resetGameState_def checkWin_empty_board)

lemma sessionInv_timers: "sessionInv (s\<lparr>timers := n\<rparr>) = sessionInv s"
  by (simp add: sessionInv_def)

lemma sessionInv_makeMove: "sessionInv s \<Longrightarrow> sessionInv (snd (makeMove s index))"
  by (auto simp: sessionInv_def makeMove_def Let_def handleWin_def handleDraw_def
        switchPlayer_def makeComputerMove_def split: option.splits if_splits)

lemma sessionInv_callback:
  assumes "sessionInv s"
  shows "sessionInv (computerMoveCallback r s)"
proof -
  obtain i b where f: "findBestMove r (board s) = (i, b)"
    by (cases "findBestMove r (board s)")
  with findBestMove_board[of r "board s"] have b: "b = board s" by simp
  show ?thesis
    using assms
    by (auto simp: sessionInv_def computerMoveCallback_def f b Let_def handleWin_def
          handleDraw_def switchPlayer_def split: option.splits if_splits)
qed

lemma sessionInv_step: "sessionInv s \<Longrightarrow> sessionInv (step s e)"
  by (cases e)
     (simp_all add: sessionInv_makeMove sessionInv_callback sessionInv_timers sessionInv_reset
        selectMode_def)

lemma reachable_sessionInv: "reachable s \<Longrightarrow> sessionInv s"
  by (induction rule: reachable.induct) (simp_all add: sessionInv_init sessionInv_step)

lemma step_inactive:
  assumes "\<not> gameActive s" and "\<not> isReset e"
  shows "\<not> gameActive (step s e) \<and> board (step s e) = board s \<and> winner (step s e) = winner s"
  using assms by (cases e) (simp_all add: makeMove_def computerMoveCallback_def)

lemma steps_inactive:
  "\<not> gameActive s \<Longrightarrow> \<forall>e \<in> set es. \<not> isReset e \<Longrightarrow>
     \<not> gameActive (foldl step s es) \<and> board (foldl step s es) = board s \<and>
     winner (foldl step s es) = winner s"
proof (induction es arbitrary: s)
  case Nil
  then show ?case by simp
next
  case (Cons e es)
  from Cons.prems have st: "\<not> gameActive (step s e) \<and> board (step s e) = board s \<and>
      winner (step s e) = winner s"
    by (simp add: step_inactive)
  from Cons.prems have "\<forall>e \<in> set es. \<not> isReset e" by simp
  with st Cons.IH[of "step s e"] show ?case by simp
qed

lemma step_ends_game:
  assumes "gameActive s" and "\<not> gameActive (step s e)"
  shows "checkWin (board (step s e)) \<noteq> None \<or> '''' \<notin> set (board (step s e))"
proof (cases e)
  case (Move index)
  with assms show ?thesis
    by (auto simp: makeMove_def Let_def handleWin_def handleDraw_def switchPlayer_def
          makeComputerMove_def checkDraw_iff split: option.splits if_splits)
next
  case (Timeout r)
  obtain i b where f: "findBestMove r (board s) = (i, b)"
    by (cases "findBestMove r (board s)")
  from Timeout assms show ?thesis
    by (auto simp: computerMoveCallback_def f Let_def handleWin_def handleDraw_def
          switchPlayer_def checkDraw_iff split: option.splits if_splits)
next
  case Restart
  with assms show ?thesis by (simp add: resetGameState_def)
next
  case (SelectMode m)
  with assms show ?thesis by (simp add: selectMode_def resetGameState_def)
qed

lemma reachable_foldl: "reachable s \<Longrightarrow> reachable (foldl step s es)"
  by (induction es arbitrary: s) (simp_all add: reachable_step)

text \<open>
  Claim C6. In every state the script can reach: a winner is set only when the game is
  over; the game goes from active to over only on an event that leaves a complete line or
  a full board; once it is over, events other than a reset leave it over, with the same
  board and winner; and \<open>makeMove\<close> then takes its early return.
\<close>

theorem session_invariant:
  assumes "reachable s"
  shows "(winner s \<noteq> None \<longrightarrow> \<not> gameActive s)
    \<and> (gameActive s \<and> \<not> gameActive (step s e) \<longrightarrow>
         checkWin (board (step s e)) \<noteq> None \<or> '''' \<notin> set (board (step s e)))
    \<and> (\<not> gameActive s \<and> (\<forall>e \<in> set es. \<not> isReset e) \<longrightarrow>
         \<not> gameActive (foldl step s es) \<and> board (foldl step s es) = board s \<and>
         winner (foldl step s es) = winner s)
    \<and> (\<not> gameActive s \<longrightarrow> makeMove s index = (InvalidMove, s))"
proof -
  from assms have "sessionInv s" by (rule reachable_sessionInv)
  then have w: "winner s \<noteq> None \<longrightarrow> \<not> gameActive s"
    by (auto simp: sessionInv_def)
  have m: "\<not> gameActive s \<longrightarrow> makeMove s index = (InvalidMove, s)"
    by (simp add: makeMove_def)
  from w m step_ends_game[of s e] steps_inactive[of s es] show ?thesis by blast
qed

text \<open>
  \<open>X\<close> takes the top row in five moves; a further click and a late callback change
  nothing.
\<close>

theorem session_invariant_witness:
  "reachable (foldl step initialGameState [Move 0, Move 3, Move 1, Move 4, Move 2])
   \<and> winner (foldl step initialGameState [Move 0, Move 3, Move 1, Move 4, Move 2]) = Some ''X''
   \<and> \<not> gameActive (foldl step initialGameState [Move 0, Move 3, Move 1, Move 4, Move 2])
   \<and> gameActive (foldl step initialGameState [Move 0, Move 3, Move 1, Move 4])
   \<and> \<not> isReset (Move 5) \<and> \<not> isReset (Timeout 0)
   \<and> board (foldl step (foldl step initialGameState [Move 0, Move 3, Move 1, Move 4, Move 2])
              [Move 5, Timeout 0])
       = [''X'', ''X'', ''X'', ''O'', ''O'', '''', '''', '''', '''']"
  using session_invariant
          [OF reachable_foldl [OF reachable_init, of "[Move 0, Move 3, Move 1, Move 4, Move 2]"],
           of "Move 5" "[Move 5, Timeout 0]" 5]
        reachable_foldl [OF reachable_init, of "[Move 0, Move 3, Move 1, Move 4, Move 2]"]
  by (simp add: initialGameState_def makeMove_def cellAt_def checkWin_def
        WINNING_COMBINATIONS_def lineMatches_def truthy_def handleWin_def handleDraw_def
        switchPlayer_def checkDraw_def computerMoveCallback_def)

section \<open>Draws\<close>

text \<open>
  Claim C10. From a state the script can reach, a move that ends in \<open>handleDraw\<close> leaves
  the game over with no winner, a full board and no complete line, while a move that ends
  in \<open>handleWin\<close> sets the winner. So in every reachable state where the game is over,
  the winner is unset exactly when the board holds no complete line.
\<close>

theorem draw_leaves_winner_unset:
  assumes "reachable s"
  shows "(fst (makeMove s index) = Draw \<longrightarrow>
            winner (snd (makeMove s index)) = None \<and> \<not> gameActive (snd (makeMove s index)) \<and>
            '''' \<notin> set (board (snd (makeMove s index))) \<and>
            checkWin (board (snd (makeMove s index))) = None)
    \<and> (fst (makeMove s index) = Win l \<longrightarrow>
            winner (snd (makeMove s index)) = Some (currentPlayer s) \<and>
            \<not> gameActive (snd (makeMove s index)))
    \<and> (\<not> gameActive s \<longrightarrow> (winner s = None) = (checkWin (board s) = None))"
proof -
  from assms have inv: "sessionInv s" by (rule reachable_sessionInv)
  then have t: "\<not> gameActive s \<longrightarrow> (winner s = None) = (checkWin (board s) = None)"
    by (simp add: sessionInv_def)
  from inv have d: "fst (makeMove s index) = Draw \<longrightarrow>
            winner (snd (makeMove s index)) = None \<and> \<not> gameActive (snd (makeMove s index)) \<and>
            '''' \<notin> set (board (snd (makeMove s index))) \<and>
            checkWin (board (snd (makeMove s index))) = None"
    by (auto simp: sessionInv_def makeMove_def Let_def handleWin_def handleDraw_def
          switchPlayer_def makeComputerMove_def checkDraw_iff split: option.splits if_splits)
  have w: "fst (makeMove s index) = Win l \<longrightarrow>
            winner (snd (makeMove s index)) = Some (currentPlayer s) \<and>
            \<not> gameActive (snd (makeMove s index))"
    by (auto simp: makeMove_def Let_def handleWin_def handleDraw_def
          switchPlayer_def makeComputerMove_def split: option.splits if_splits)
  from t d w show ?thesis by blast
qed

theorem draw_leaves_winner_unset_witness:
  "reachable (foldl step initialGameState
               [Move 0, Move 1, Move 2, Move 4, Move 3, Move 5, Move 7, Move 6])
   \<and> makeMove (foldl step initialGameState
                 [Move 0, Move 1, Move 2, Move 4, Move 3, Move 5, Move 7, Move 6]) 8
       = (Draw,
          initialGameState\<lparr>board := [''X'', ''O'', ''X'', ''X'', ''O'', ''O'', ''O'', ''X'', ''X''],
                            gameActive := False\<rparr>)
   \<and> winner (snd (makeMove (foldl step initialGameState
                 [Move 0, Move 1, Move 2, Move 4, Move 3, Move 5, Move 7, Move 6]) 8)) = None"
  using draw_leaves_winner_unset
          [OF reachable_foldl [OF reachable_init,
                of "[Move 0, Move 1, Move 2, Move 4, Move 3, Move 5, Move 7, Move 6]"], of 8]
        reachable_foldl [OF reachable_init,
                of "[Move 0, Move 1, Move 2, Move 4, Move 3, Move 5, Move 7, Move 6]"]
  by (simp add: initialGameState_def makeMove_def cellAt_def checkWin_def
        WINNING_COMBINATIONS_def lineMatches_def truthy_def handleWin_def handleDraw_def
        switchPlayer_def checkDraw_def)

section \<open>Turn order\<close>

lemma makeMove_currentPlayer:
  "currentPlayer (snd (makeMove s index)) =
     (if fst (makeMove s index) = Continue
      then (if currentPlayer s = ''X'' then ''O'' else ''X'') else currentPlayer s)"
  by (simp add: makeMove_def Let_def handleWin_def handleDraw_def switchPlayer_def
        makeComputerMove_def split: option.split)

lemma makeMoves_currentPlayer:
  "currentPlayer s = ''X'' \<or> currentPlayer s = ''O'' \<Longrightarrow>
   currentPlayer (snd (makeMoves s idxs)) =
     (if even (count_list (fst (makeMoves s idxs)) Continue) then currentPlayer s
      else if currentPlayer s = ''X'' then ''O'' else ''X'')"
proof (induction idxs arbitrary: s)
  case Nil
  then show ?case by simp
next
  case (Cons i idxs)
  obtain res s1 where m: "makeMove s i = (res, s1)" by (cases "makeMove s i")
  obtain ress s2 where ms: "makeMoves s1 idxs = (ress, s2)" by (cases "makeMoves s1 idxs")
  from makeMove_currentPlayer[of s i] m
  have cp1: "currentPlayer s1 =
      (if res = Continue then (if currentPlayer s = ''X'' then ''O'' else ''X'')
       else currentPlayer s)"
    by simp
  with Cons.prems have "currentPlayer s1 = ''X'' \<or> currentPlayer s1 = ''O''" by auto
  from Cons.IH[OF this] ms
  have "currentPlayer s2 =
     (if even (count_list ress Continue) then currentPlayer s1
      else if currentPlayer s1 = ''X'' then ''O'' else ''X'')"
    by simp
  with cp1 Cons.prems show ?case by (auto simp: m ms)
qed

lemma makeMoves_Cons_fst:
  "fst (makeMoves s (i # idxs)) = fst (makeMove s i) # fst (makeMoves (snd (makeMove s i)) idxs)"
  by (simp split: prod.split)

lemma makeMoves_length: "length (fst (makeMoves s idxs)) = length idxs"
proof (induction idxs arbitrary: s)
  case Nil
  then show ?case by simp
next
  case (Cons i idxs)
  then show ?case by (simp only: makeMoves_Cons_fst length_Cons)
qed

lemma makeMoves_take:
  "fst (makeMoves s (take k idxs)) = take k (fst (makeMoves s idxs))"
proof (induction idxs arbitrary: s k)
  case Nil
  then show ?case by simp
next
  case (Cons i idxs)
  show ?case
  proof (cases k)
    case 0
    then show ?thesis by simp
  next
    case (Suc j)
    with Cons.IH[of "snd (makeMove s i)" j] show ?thesis
      by (simp only: take_Suc_Cons makeMoves_Cons_fst)
  qed
qed

lemma count_list_all: "\<forall>x \<in> set xs. x = a \<Longrightarrow> count_list xs a = length xs"
  by (induction xs) auto

text \<open>
  Claim C7. After any sequence of \<open>makeMove\<close> calls from the reset state, the current
  player is \<open>X\<close> if an even number of the calls went on to \<open>switchPlayer\<close> and \<open>O\<close>
  otherwise. When every call of the sequence did, the player after the first \<open>k\<close> calls
  is \<open>X\<close> for even \<open>k\<close> and \<open>O\<close> for odd \<open>k\<close>. A single call changes the player exactly
  when it goes on; a rejected move, a win and a draw leave the player as it was.
\<close>

theorem currentPlayer_alternates:
  assumes "makeMoves (resetGameState s0) idxs = (ress, s')"
  shows "currentPlayer s' = (if even (count_list ress Continue) then ''X'' else ''O'')
    \<and> ((\<forall>res \<in> set ress. res = Continue) \<longrightarrow>
         (\<forall>k \<le> length idxs.
            currentPlayer (snd (makeMoves (resetGameState s0) (take k idxs))) =
              (if even k then ''X'' else ''O'')))
    \<and> currentPlayer (snd (makeMove s index)) =
         (if fst (makeMove s index) = Continue
          then (if currentPlayer s = ''X'' then ''O'' else ''X'') else currentPlayer s)"
proof -
  let ?s = "resetGameState s0"
  have x: "currentPlayer ?s = ''X''" by (simp add: resetGameState_def)
  have gen: "\<And>js. currentPlayer (snd (makeMoves ?s js)) =
      (if even (count_list (fst (makeMoves ?s js)) Continue) then ''X'' else ''O'')"
    using makeMoves_currentPlayer[of ?s] x by simp
  from gen[of idxs] assms
  have a: "currentPlayer s' = (if even (count_list ress Continue) then ''X'' else ''O'')"
    by simp
  have b: "currentPlayer (snd (makeMoves ?s (take k idxs))) = (if even k then ''X'' else ''O'')"
    if all: "\<forall>res \<in> set ress. res = Continue" and k: "k \<le> length idxs" for k
  proof -
    have t: "fst (makeMoves ?s (take k idxs)) = take k ress"
      using makeMoves_take[of ?s k idxs] assms by simp
    from all have "\<forall>res \<in> set (take k ress). res = Continue"
      by (meson in_set_takeD)
    then have "count_list (take k ress) Continue = length (take k ress)"
      by (rule count_list_all)
    moreover have "length ress = length idxs"
      using makeMoves_length[of ?s idxs] assms by simp
    ultimately have "count_list (take k ress) Continue = k" using k by simp
    with gen[of "take k idxs"] t show ?thesis by simp
  qed
  from a b makeMove_currentPlayer[of s index] show ?thesis by blast
qed

theorem currentPlayer_alternates_witness:
  "makeMoves (resetGameState initialGameState) [4, 4, 0, 8]
     = ([Continue, InvalidMove, Continue, Continue],
        initialGameState\<lparr>board := [''O'', '''', '''', '''', ''X'', '''', '''', '''', ''X''],
                          currentPlayer := ''O''\<rparr>)
   \<and> count_list [Continue, InvalidMove, Continue, Continue] Continue = 3
   \<and> fst (makeMoves (resetGameState initialGameState) [4, 0, 8]) = [Continue, Continue, Continue]
   \<and> currentPlayer (snd (makeMoves (resetGameState initialGameState) (take 2 [4, 0, 8]))) = ''X''"
  using currentPlayer_alternates
          [of initialGameState "[4, 4, 0, 8]" "[Continue, InvalidMove, Continue, Continue]"
              "initialGameState\<lparr>board := [''O'', '''', '''', '''', ''X'', '''', '''', '''', ''X''],
                                currentPlayer := ''O''\<rparr>"]
        currentPlayer_alternates
          [of initialGameState "[4, 0, 8]" "[Continue, Continue, Continue]"
              "snd (makeMoves (resetGameState initialGameState) [4, 0, 8])"]
  by (simp add: initialGameState_def resetGameState_def makeMove_def cellAt_def checkWin_def
        WINNING_COMBINATIONS_def lineMatches_def truthy_def handleWin_def handleDraw_def
        switchPlayer_def checkDraw_def)

section \<open>The priorities of the computer's move\<close>

lemma find_map_filter:
  "find P (map f (filter Q xs)) = map_option f (find (\<lambda>x. Q x \<and> P (f x)) xs)"
  by (induction xs) auto

lemma find_upt_Least:
  assumes "\<And>i. W i \<Longrightarrow> i < n"
  shows "find W [0..<n] = (if \<exists>i. W i then Some (LEAST i. W i) else None)"
proof (cases "\<exists>i. W i")
  case True
  define k where "k = (LEAST i. W i)"
  from True obtain i where "W i" ..
  then have k: "W k" unfolding k_def by (rule LeastI)
  with assms have kn: "k < n" by simp
  have least: "\<not> W j" if "j < k" for j
    using that not_less_Least unfolding k_def by blast
  have "k < length [0..<n] \<and> W ([0..<n] ! k) \<and> k = [0..<n] ! k \<and>
      (\<forall>j<k. \<not> W ([0..<n] ! j))"
    using k kn least by simp
  then have "find W [0..<n] = Some k"
    unfolding find_Some_iff by blast
  with True show ?thesis unfolding k_def by simp
next
  case False
  then show ?thesis by (simp add: find_None_iff)
qed

lemma tryMark_Least:
  "fst (tryMark m bd (emptyIndices bd)) =
     (if \<exists>i. winsWith m bd i then Some (int (LEAST i. winsWith m bd i)) else None)"
proof -
  have "fst (tryMark m bd (emptyIndices bd)) =
      find (\<lambda>i. checkWin (bd[nat i := m]) \<noteq> None) (emptyIndices bd)"
    by (simp add: tryMark_find)
  also have "\<dots> = map_option int
      (find (\<lambda>i. bd ! i = '''' \<and> checkWin (bd[i := m]) \<noteq> None) [0..<length bd])"
    by (simp add: emptyIndices_eq find_map_filter)
  also have "find (\<lambda>i. bd ! i = '''' \<and> checkWin (bd[i := m]) \<noteq> None) [0..<length bd]
      = find (winsWith m bd) [0..<length bd]"
    by (rule find_cong) (auto simp: winsWith_def)
  also have "\<dots> = (if \<exists>i. winsWith m bd i then Some (LEAST i. winsWith m bd i) else None)"
    by (rule find_upt_Least) (simp add: winsWith_def)
  finally show ?thesis by simp
qed

lemma in_emptyIndices: "c \<in> set (emptyIndices bd) \<longleftrightarrow> cellAt bd c = Some ''''"
proof
  assume "c \<in> set (emptyIndices bd)"
  then show "cellAt bd c = Some ''''"
    by (auto simp: set_emptyIndices cellAt_def)
next
  assume "cellAt bd c = Some ''''"
  then have "0 \<le> c" and "nat c < length bd" and "bd ! nat c = ''''"
    by (auto simp: cellAt_def split: if_splits)
  then have "c = int (nat c) \<and> nat c < length bd \<and> bd ! nat c = ''''" by simp
  then show "c \<in> set (emptyIndices bd)"
    unfolding set_emptyIndices by blast
qed

lemma filter_emptyIndices: "filter (\<lambda>c. c \<in> set (emptyIndices bd)) cs = emptyAmong bd cs"
  by (simp add: emptyAmong_def in_emptyIndices)

lemma findBestMove_cases:
  assumes "emptyIndices bd \<noteq> []"
  shows "fst (findBestMove r bd) =
      (case fst (tryMark ''O'' bd (emptyIndices bd)) of
         Some i \<Rightarrow> i
       | None \<Rightarrow>
          (case fst (tryMark ''X'' bd (emptyIndices bd)) of
             Some i \<Rightarrow> i
           | None \<Rightarrow>
               if cellAt bd 4 = Some '''' then 4
               else if emptyAmong bd [0, 2, 6, 8] \<noteq> [] then pick r (emptyAmong bd [0, 2, 6, 8])
               else if emptyAmong bd [1, 3, 5, 7] \<noteq> [] then pick r (emptyAmong bd [1, 3, 5, 7])
               else pick r (emptyIndices bd)))"
proof -
  define cs :: "int list" where "cs = [0, 2, 6, 8]"
  define es :: "int list" where "es = [1, 3, 5, 7]"
  obtain io bo where eo: "tryMark ''O'' bd (emptyIndices bd) = (io, bo)"
    by (cases "tryMark ''O'' bd (emptyIndices bd)")
  from tryMark_board[of "emptyIndices bd" bd "''O''"] eo have bo: "bo = bd" by simp
  obtain ix bx where ex: "tryMark ''X'' bd (emptyIndices bd) = (ix, bx)"
    by (cases "tryMark ''X'' bd (emptyIndices bd)")
  have "fst (findBestMove r bd) =
      (case io of
         Some i \<Rightarrow> i
       | None \<Rightarrow>
          (case ix of
             Some i \<Rightarrow> i
           | None \<Rightarrow>
               if 4 \<in> set (emptyIndices bd) then 4
               else if filter (\<lambda>c. c \<in> set (emptyIndices bd)) cs \<noteq> []
                 then pick r (filter (\<lambda>c. c \<in> set (emptyIndices bd)) cs)
               else if filter (\<lambda>c. c \<in> set (emptyIndices bd)) es \<noteq> []
                 then pick r (filter (\<lambda>c. c \<in> set (emptyIndices bd)) es)
               else pick r (emptyIndices bd)))"
    unfolding findBestMove_def cs_def[symmetric] es_def[symmetric]
    using assms
    by (simp add: Let_def eo bo ex split: option.split)
  then show ?thesis
    apply (simp only: in_emptyIndices)
    apply (simp only: emptyAmong_def[symmetric] cs_def es_def eo ex fst_conv)
    done
qed

text \<open>
  Claim C4. On a board with an empty cell, \<open>findBestMove\<close> returns, in this order of
  priority: the lowest empty index where writing \<open>O\<close> gives a board on which \<open>checkWin\<close>
  finds a line; else the lowest empty index where writing \<open>X\<close> does; else 4 if cell 4 is
  empty; else one of the empty corners among 0, 2, 6, 8, the one the random draw selects;
  else one of the empty edges among 1, 3, 5, 7, likewise; else one of the empty cells,
  likewise.
\<close>

theorem findBestMove_priority:
  assumes "'''' \<in> set bd"
  shows "let idx = fst (findBestMove r bd);
             corners = emptyAmong bd [0, 2, 6, 8];
             edges = emptyAmong bd [1, 3, 5, 7];
             empties = map int (filter (\<lambda>i. bd ! i = '''') [0..<length bd])
         in
           if \<exists>i. winsWith ''O'' bd i then idx = int (LEAST i. winsWith ''O'' bd i)
           else if \<exists>i. winsWith ''X'' bd i then idx = int (LEAST i. winsWith ''X'' bd i)
           else if cellAt bd 4 = Some '''' then idx = 4
           else if corners \<noteq> [] then idx = corners ! (r mod length corners)
           else if edges \<noteq> [] then idx = edges ! (r mod length edges)
           else idx = empties ! (r mod length empties)"
proof -
  from assms have ne: "emptyIndices bd \<noteq> []"
    using emptyIndices_Nil[of bd] by blast
  note cases = findBestMove_cases[OF ne, of r]
  show ?thesis
  proof (cases "\<exists>i. winsWith ''O'' bd i")
    case True
    then have "fst (tryMark ''O'' bd (emptyIndices bd)) = Some (int (LEAST i. winsWith ''O'' bd i))"
      by (simp only: tryMark_Least if_True)
    then have "fst (findBestMove r bd) = int (LEAST i. winsWith ''O'' bd i)"
      by (simp only: cases option.case)
    with True show ?thesis by (simp only: Let_def if_True)
  next
    case False
    note noO = False
    then have o: "fst (tryMark ''O'' bd (emptyIndices bd)) = None"
      by (simp only: tryMark_Least if_False)
    show ?thesis
    proof (cases "\<exists>i. winsWith ''X'' bd i")
      case True
      then have "fst (tryMark ''X'' bd (emptyIndices bd)) = Some (int (LEAST i. winsWith ''X'' bd i))"
        by (simp only: tryMark_Least if_True)
      then have "fst (findBestMove r bd) = int (LEAST i. winsWith ''X'' bd i)"
        by (simp only: cases o option.case)
      with True noO show ?thesis by (simp only: Let_def if_True if_False)
    next
      case False
      then have x: "fst (tryMark ''X'' bd (emptyIndices bd)) = None"
        by (simp only: tryMark_Least if_False)
      from False have nX: "(\<exists>i. winsWith ''X'' bd i) = False" by simp
      from noO have nO: "(\<exists>i. winsWith ''O'' bd i) = False" by simp
      have rest: "fst (findBestMove r bd) =
          (if cellAt bd 4 = Some '''' then 4
           else if emptyAmong bd [0, 2, 6, 8] \<noteq> [] then pick r (emptyAmong bd [0, 2, 6, 8])
           else if emptyAmong bd [1, 3, 5, 7] \<noteq> [] then pick r (emptyAmong bd [1, 3, 5, 7])
           else pick r (emptyIndices bd))"
        by (simp only: cases o x option.case)
      show ?thesis
        unfolding Let_def nO nX if_False rest pick_def emptyIndices_eq by simp
    qed
  qed
qed

text \<open>
  With \<open>X\<close> on 0 and 1 and \<open>O\<close> on 4 the move is the block on 2; with only the centre
  taken, the draw 7 selects the fourth of the four empty corners.
\<close>

theorem findBestMove_priority_witness:
  "'''' \<in> set [''X'', ''X'', '''', '''', ''O'', '''', '''', '''', '''']
   \<and> fst (findBestMove 0 [''X'', ''X'', '''', '''', ''O'', '''', '''', '''', '''']) = 2
   \<and> fst (findBestMove 7 ['''', '''', '''', '''', ''X'', '''', '''', '''', '''']) = 8
   \<and> emptyAmong ['''', '''', '''', '''', ''X'', '''', '''', '''', ''''] [0, 2, 6, 8] = [0, 2, 6, 8]"
proof -
  have ev: "fst (findBestMove 0 [''X'', ''X'', '''', '''', ''O'', '''', '''', '''', '''']) = 2
   \<and> fst (findBestMove 7 ['''', '''', '''', '''', ''X'', '''', '''', '''', '''']) = 8
   \<and> emptyAmong ['''', '''', '''', '''', ''X'', '''', '''', '''', ''''] [0, 2, 6, 8] = [0, 2, 6, 8]"
    by (simp add: findBestMove_def emptyIndices_def checkWin_def WINNING_COMBINATIONS_def
        lineMatches_def cellAt_def truthy_def Let_def pick_def emptyAmong_def)
  have h: "'''' \<in> set [''X'', ''X'', '''', '''', ''O'', '''', '''', '''', '''']" by simp
  from findBestMove_priority [OF h, of 0] h ev show ?thesis by (simp only: simp_thms)
qed

end
